theory Spec2Isabelle
  imports Main "HOL-Library.Word" "HOL-Library.Sublist"
begin

section \<open>JavaScript strings\<close>

text \<open>
  A JavaScript string is a sequence of 16-bit UTF-16 code units. The regular expression
  of the script has no \<open>u\<close> flag, so it reads the content one code unit at a time.
  The literals of the script are ASCII; \<open>ascii\<close> turns such a literal into its code units.
\<close>

type_synonym jschar = "16 word"
type_synonym jsstring = "jschar list"

definition ascii :: "string \<Rightarrow> jsstring" where
  "ascii s = map of_char s"

definition SLASH :: jschar where
  "SLASH = 0x2F"

definition PIPE :: jschar where
  "PIPE = 0x7C"

text \<open>\<open>Array.prototype.join\<close> with an explicit separator.\<close>

fun joinWith :: "jsstring \<Rightarrow> jsstring list \<Rightarrow> jsstring" where
  "joinWith d [] = []"
| "joinWith d [x] = x"
| "joinWith d (x # y # ys) = x @ d @ joinWith d (y # ys)"

text \<open>\<open>String.prototype.split\<close> on a one-character separator: never an empty array.\<close>

fun splitOn :: "jschar \<Rightarrow> jsstring \<Rightarrow> jsstring list" where
  "splitOn d [] = [[]]"
| "splitOn d (c # cs) =
     (if c = d then [] # splitOn d cs
      else (case splitOn d cs of
              [] \<Rightarrow> [[c]]
            | s # ss \<Rightarrow> (c # s) # ss))"


text \<open>\<open>s.replace(/^p/, '')\<close> for a literal \<open>p\<close>: drops \<open>p\<close> when \<open>s\<close> starts with it.\<close>

definition stripStart :: "jsstring \<Rightarrow> jsstring \<Rightarrow> jsstring" where
  "stripStart p s = (if prefix p s then drop (length p) s else s)"

text \<open>\<open>s.replace(a, b)\<close> for one-character strings: only the first occurrence.\<close>

fun replaceFirst :: "jschar \<Rightarrow> jschar \<Rightarrow> jsstring \<Rightarrow> jsstring" where
  "replaceFirst a b [] = []"
| "replaceFirst a b (c # cs) = (if c = a then b # cs else c # replaceFirst a b cs)"

section \<open>The token pattern\<close>

text \<open>
  \<^verbatim>\<open>const DEFAULT_PATH = 'src/index.js';\<close>
  \<^verbatim>\<open>const TOKEN_PATTERN = /<!-- START TOKEN\((.+?(?:\|(.+?))?)\) -->/g;\<close>

  The pattern is matched by backtracking, as ECMAScript prescribes. It reads: the
  literal \<open>TOKEN_OPEN\<close>; group 1, which is a lazy \<open>.+?\<close> followed by the optional
  \<open>(?:\|(.+?))?\<close> whose inner lazy \<open>.+?\<close> is group 2; the literal \<open>TOKEN_CLOSE\<close>.
  The dot matches every code unit but the four line terminators.
\<close>

definition DEFAULT_PATH :: jsstring where
  "DEFAULT_PATH = ascii ''src/index.js''"

definition TOKEN_OPEN :: jsstring where
  "TOKEN_OPEN = ascii ''<!-- START TOKEN(''"

definition TOKEN_CLOSE :: jsstring where
  "TOKEN_CLOSE = ascii '') -->''"

definition isLineTerminator :: "jschar \<Rightarrow> bool" where
  "isLineTerminator c = (c = 0x000A \<or> c = 0x000D \<or> c = 0x2028 \<or> c = 0x2029)"

text \<open>A literal piece of the pattern: the rest of the input after it, if it is there.\<close>

fun literal :: "jsstring \<Rightarrow> jsstring \<Rightarrow> jsstring option" where
  "literal [] s = Some s"
| "literal (p # ps) [] = None"
| "literal (p # ps) (c # cs) = (if p = c then literal ps cs else None)"

text \<open>
  Group 2 and what follows it, \<open>(.+?)\) -->\<close>: one more code unit at a time, stopping
  at the first length after which the closing literal matches. The result is the
  capture and the input left after the whole match.
\<close>

fun pathGroup :: "jsstring \<Rightarrow> jsstring \<Rightarrow> (jsstring \<times> jsstring) option" where
  "pathGroup acc [] = None"
| "pathGroup acc (c # cs) =
     (if isLineTerminator c then None
      else (case literal TOKEN_CLOSE cs of
              Some rest \<Rightarrow> Some (acc @ [c], rest)
            | None \<Rightarrow> pathGroup (acc @ [c]) cs))"

text \<open>
  The optional part and what follows it, \<open>(?:\|(.+?))?\) -->\<close>. The quantifier \<open>?\<close> is
  greedy: the alternative with the pipe is tried first, the one without it only when
  that fails. The result is group 2 (undefined when the part was skipped) and the
  input left.
\<close>

definition optionalPath :: "jsstring \<Rightarrow> (jsstring option \<times> jsstring) option" where
  "optionalPath s =
     (case (case s of
              [] \<Rightarrow> None
            | c # cs \<Rightarrow> if c = PIPE then pathGroup [] cs else None) of
        Some (p, rest) \<Rightarrow> Some (Some p, rest)
      | None \<Rightarrow>
          (case literal TOKEN_CLOSE s of
             Some rest \<Rightarrow> Some (None, rest)
           | None \<Rightarrow> None))"

text \<open>
  Group 1 and what follows it. The lazy \<open>.+?\<close> takes one code unit, then tries the
  rest of the pattern, and takes one more only when the rest fails. Group 1 encloses
  the optional part, so its capture is the lazy part followed by the pipe and group 2
  when they took part in the match.
\<close>

fun tokenGroup ::
  "jsstring \<Rightarrow> jsstring \<Rightarrow> (jsstring \<times> jsstring option \<times> jsstring) option" where
  "tokenGroup acc [] = None"
| "tokenGroup acc (c # cs) =
     (if isLineTerminator c then None
      else (case optionalPath cs of
              Some (None, rest) \<Rightarrow> Some (acc @ [c], None, rest)
            | Some (Some p, rest) \<Rightarrow> Some (acc @ [c] @ PIPE # p, Some p, rest)
            | None \<Rightarrow> tokenGroup (acc @ [c]) cs))"

text \<open>One attempt of the pattern at the start of the input: groups 1 and 2 and the input left.\<close>

definition execAt :: "jsstring \<Rightarrow> (jsstring \<times> jsstring option \<times> jsstring) option" where
  "execAt s =
     (case literal TOKEN_OPEN s of
        None \<Rightarrow> None
      | Some r \<Rightarrow> tokenGroup [] r)"

lemma literal_Some_iff: "literal p s = Some r \<longleftrightarrow> s = p @ r"
  by (induction p s rule: literal.induct) auto

lemma literal_length: "literal p s = Some r \<Longrightarrow> length r \<le> length s"
  by (simp add: literal_Some_iff)

lemma pathGroup_length: "pathGroup acc s = Some (p, r) \<Longrightarrow> length r < length s"
proof (induction acc s rule: pathGroup.induct)
  case (1 acc)
  then show ?case by simp
next
  case (2 acc c cs)
  then show ?case
    by (auto split: if_splits option.splits dest: literal_length)
qed

lemma optionalPath_length: "optionalPath s = Some (p, r) \<Longrightarrow> length r \<le> length s"
  unfolding optionalPath_def
  by (auto split: list.splits if_splits option.splits
      dest: literal_length pathGroup_length)

lemma tokenGroup_length: "tokenGroup acc s = Some (t, p, r) \<Longrightarrow> length r < length s"
proof (induction acc s rule: tokenGroup.induct)
  case (1 acc)
  then show ?case by simp
next
  case (2 acc c cs)
  then show ?case
    by (auto split: if_splits option.splits dest: optionalPath_length)
qed

lemma execAt_length:
  assumes "execAt s = Some (t, p, r)"
  shows "length r < length s"
proof -
  from assms obtain u where u: "literal TOKEN_OPEN s = Some u" "tokenGroup [] u = Some (t, p, r)"
    unfolding execAt_def by (auto split: option.splits)
  from u(1) have "length u \<le> length s" by (rule literal_length)
  moreover from u(2) have "length r < length u" by (rule tokenGroup_length)
  ultimately show ?thesis by simp
qed

text \<open>
  \<open>content.matchAll(TOKEN_PATTERN)\<close>: the global scan from index 0. A match is
  attempted at the current index; after a match the scan goes on where the match
  ended, after a failure one code unit further. Each match yields groups 1 and 2.
\<close>

function matchAll :: "jsstring \<Rightarrow> (jsstring \<times> jsstring option) list" where
  "matchAll s =
     (case execAt s of
        Some (t, p, rest) \<Rightarrow> (t, p) # matchAll rest
      | None \<Rightarrow> (case s of [] \<Rightarrow> [] | c # cs \<Rightarrow> matchAll cs))"
  by pat_completeness auto
termination
  by (relation "measure length") (auto dest: execAt_length)

declare matchAll.simps [simp del]

section \<open>The path functions of the runtime\<close>

text \<open>
  \<^verbatim>\<open>const { join, relative, resolve, sep, basename, dirname } = require( 'path' );\<close>

  These functions belong to the runtime (Node.js, POSIX flavour), not to the
  repository. They are modelled here after the runtime's algorithms, on path
  segments. The process environment is a parameter: the directory of the script
  (\<open>__dirname\<close>) and the working directory, which \<open>resolve\<close> prepends to a relative
  path and which is an absolute path in every process.
\<close>

record env =
  script_dirname :: jsstring
  cwd :: jsstring

definition sep :: jsstring where
  "sep = [SLASH]"

definition DOT :: jsstring where
  "DOT = ascii ''.''"

definition DOTDOT :: jsstring where
  "DOTDOT = ascii ''..''"

text \<open>
  The runtime's \<open>normalizeString\<close>: empty segments and \<open>.\<close> are dropped, \<open>..\<close>
  removes the segment before it, and is kept only where going above the start is
  allowed and there is nothing left to remove.
\<close>

fun normalizeSegments :: "bool \<Rightarrow> jsstring list \<Rightarrow> jsstring list \<Rightarrow> jsstring list" where
  "normalizeSegments allowAboveRoot res [] = res"
| "normalizeSegments allowAboveRoot res (s # ss) =
     (if s = [] \<or> s = DOT then normalizeSegments allowAboveRoot res ss
      else if s = DOTDOT then
        (if res \<noteq> [] \<and> last res \<noteq> DOTDOT
           then normalizeSegments allowAboveRoot (butlast res) ss
         else if allowAboveRoot
           then normalizeSegments allowAboveRoot (res @ [DOTDOT]) ss
         else normalizeSegments allowAboveRoot res ss)
      else normalizeSegments allowAboveRoot (res @ [s]) ss)"

definition normalizeString :: "jsstring \<Rightarrow> bool \<Rightarrow> jsstring" where
  "normalizeString path allowAboveRoot =
     joinWith sep (normalizeSegments allowAboveRoot [] (splitOn SLASH path))"

definition isAbsolute :: "jsstring \<Rightarrow> bool" where
  "isAbsolute path = (case path of [] \<Rightarrow> False | c # cs \<Rightarrow> c = SLASH)"

text \<open>
  \<open>resolve(...args)\<close>: the arguments are taken from the last to the first until the
  path is absolute, empty ones skipped; the working directory comes after the first
  argument. The first parameter of \<open>resolveArgs\<close> is the arguments still to take,
  last one first.
\<close>

fun resolveArgs :: "jsstring list \<Rightarrow> jsstring \<Rightarrow> jsstring \<Rightarrow> jsstring \<times> bool" where
  "resolveArgs [] wd resolvedPath =
     (if wd = [] then (resolvedPath, False)
      else (wd @ sep @ resolvedPath, isAbsolute wd))"
| "resolveArgs (path # paths) wd resolvedPath =
     (if path = [] then resolveArgs paths wd resolvedPath
      else if isAbsolute path then (path @ sep @ resolvedPath, True)
      else resolveArgs paths wd (path @ sep @ resolvedPath))"

definition resolve :: "env \<Rightarrow> jsstring list \<Rightarrow> jsstring" where
  "resolve E args =
     (case resolveArgs (rev args) (cwd E) [] of
        (resolvedPath, resolvedAbsolute) \<Rightarrow>
          (let normalized = normalizeString resolvedPath (\<not> resolvedAbsolute)
           in if resolvedAbsolute then sep @ normalized
              else if normalized \<noteq> [] then normalized
              else DOT))"

text \<open>
  \<open>relative(from, to)\<close>: both paths are resolved; the segments they share from the
  root are dropped, each segment left of \<open>from\<close> becomes \<open>..\<close>, and the segments
  left of \<open>to\<close> follow.
\<close>

fun dropCommon :: "jsstring list \<Rightarrow> jsstring list \<Rightarrow> jsstring list \<times> jsstring list" where
  "dropCommon (x # xs) (y # ys) = (if x = y then dropCommon xs ys else (x # xs, y # ys))"
| "dropCommon xs ys = (xs, ys)"

definition pathSegments :: "jsstring \<Rightarrow> jsstring list" where
  "pathSegments path = filter (\<lambda>s. s \<noteq> []) (splitOn SLASH path)"

definition relative :: "env \<Rightarrow> jsstring \<Rightarrow> jsstring \<Rightarrow> jsstring" where
  "relative E from to =
     (if from = to then []
      else (let from' = resolve E [from]; to' = resolve E [to]
            in if from' = to' then []
               else (case dropCommon (pathSegments from') (pathSegments to') of
                       (up, down) \<Rightarrow>
                         joinWith sep (map (\<lambda>s. DOTDOT) up @ down))))"

text \<open>
  \<open>dirname(path)\<close>: the path up to the separator before its last segment, trailing
  separators not counted and the first code unit never taken for that separator.
\<close>

definition dirname :: "jsstring \<Rightarrow> jsstring" where
  "dirname path =
     (case path of
        [] \<Rightarrow> DOT
      | c # cs \<Rightarrow>
          (case dropWhile (\<lambda>x. x \<noteq> SLASH) (dropWhile (\<lambda>x. x = SLASH) (rev cs)) of
             [] \<Rightarrow> if c = SLASH then sep else DOT
           | s # front \<Rightarrow>
               if c = SLASH \<and> front = [] then sep @ sep
               else c # rev front))"

text \<open>
  \<open>basename(path, ext)\<close>: the last segment of the path, trailing separators not
  counted, without the extension when the segment ends with it and is longer. As in
  the runtime, a path equal to the extension gives the empty string, and where the
  segment is only the end of the extension the trailing separators stay.
\<close>

definition stripTrailingSeps :: "jsstring \<Rightarrow> jsstring" where
  "stripTrailingSeps path = rev (dropWhile (\<lambda>x. x = SLASH) (rev path))"

definition lastSegment :: "jsstring \<Rightarrow> jsstring" where
  "lastSegment path = rev (takeWhile (\<lambda>x. x \<noteq> SLASH) (rev (stripTrailingSeps path)))"

definition basename :: "jsstring \<Rightarrow> jsstring \<Rightarrow> jsstring" where
  "basename path ext =
     (if ext \<noteq> [] \<and> length ext \<le> length path then
        (if ext = path then []
         else (let seg = lastSegment path
               in if suffix ext seg then
                    (if seg = ext then seg
                     else take (length seg - length ext) seg)
                  else if suffix seg ext then
                    drop (length (stripTrailingSeps path) - length seg) path
                  else seg))
      else lastSegment path)"

text \<open>
  \<open>join(...args)\<close>: the non-empty arguments joined by the separator, then normalised;
  a trailing separator is kept.
\<close>

definition normalize :: "jsstring \<Rightarrow> jsstring" where
  "normalize path =
     (if path = [] then DOT
      else (let absolute = isAbsolute path;
                trailingSeparator = (last path = SLASH);
                normalized = normalizeString path (\<not> absolute)
            in if normalized = [] then
                 (if absolute then sep else if trailingSeparator then DOT @ sep else DOT)
               else (if absolute then sep else [])
                    @ normalized
                    @ (if trailingSeparator then sep else [])))"

definition join :: "jsstring list \<Rightarrow> jsstring" where
  "join args =
     (case filter (\<lambda>a. a \<noteq> []) args of
        [] \<Rightarrow> DOT
      | a # as \<Rightarrow> normalize (joinWith sep (a # as)))"

section \<open>Package and documentation file names\<close>

text \<open>
  \<^verbatim>\<open>const ROOT_DIR = resolve( __dirname, '../..' );\<close>
  \<^verbatim>\<open>const PACKAGES_DIR = resolve( ROOT_DIR, 'packages' );\<close>
  \<^verbatim>\<open>const DATA_DOCS_DIR = resolve( ROOT_DIR, 'docs/designers-developers/developers/data' );\<close>
\<close>

definition ROOT_DIR :: "env \<Rightarrow> jsstring" where
  "ROOT_DIR E = resolve E [script_dirname E, ascii ''../..'']"



text \<open>
  \<^verbatim>\<open>let packageName = file.replace( /^data-/, '' ).replace( /^core-/, '' );\<close>
  \<^verbatim>\<open>if ( packageName === 'core' ) { packageName += '-data'; }\<close>
\<close>

definition getDataDocumentationFilePackage :: "jsstring \<Rightarrow> jsstring" where
  "getDataDocumentationFilePackage file =
     (let packageName = stripStart (ascii ''core-'') (stripStart (ascii ''data-'') file)
      in if packageName = ascii ''core'' then packageName @ ascii ''-data''
         else packageName)"



text \<open>
  \<^verbatim>\<open>let storeName = 'core';\<close>
  \<^verbatim>\<open>if ( packageName !== 'core-data' ) { storeName += '/' + packageName; }\<close>
\<close>

definition getPackageStoreName :: "jsstring \<Rightarrow> jsstring" where
  "getPackageStoreName packageName =
     (if packageName \<noteq> ascii ''core-data''
      then ascii ''core'' @ ascii ''/'' @ packageName
      else ascii ''core'')"

text \<open>
  \<^verbatim>\<open>const storeName = getPackageStoreName( packageName );\<close>
  \<^verbatim>\<open>return `data-${ storeName.replace( '/', '-' ) }.md`;\<close>
\<close>

definition getDataDocumentationFile :: "jsstring \<Rightarrow> jsstring" where
  "getDataDocumentationFile packageName =
     (let storeName = getPackageStoreName packageName
      in ascii ''data-'' @ replaceFirst SLASH 0x2D storeName @ ascii ''.md'')"



section \<open>Discovery by glob patterns\<close>







section \<open>Token discovery\<close>

text \<open>
  \<open>readFile( file, 'utf8' )\<close> either yields the content or rejects. The file system
  is a parameter of the model.
\<close>

datatype read_error = ENOENT | EACCES | EISDIR

type_synonym filesystem = "jsstring \<Rightarrow> read_error + jsstring"

text \<open>
  \<open>WPReadmeFileTokens\<close>: token identifier and source path.
  \<open>WPReadmeFileData\<close>: file path and its tokens.
\<close>

type_synonym token = "jsstring \<times> jsstring"
type_synonym fileData = "jsstring \<times> token list"

text \<open>
  \<^verbatim>\<open>let content;\<close>
  \<^verbatim>\<open>try { content = await readFile( file, 'utf8' ); } catch {}\<close>
  After a rejected read \<open>content\<close> is still \<open>undefined\<close>.
\<close>

definition readContent :: "filesystem \<Rightarrow> jsstring \<Rightarrow> jsstring option" where
  "readContent fs file = (case fs file of Inl e \<Rightarrow> None | Inr c \<Rightarrow> Some c)"

text \<open>
  \<^verbatim>\<open>for ( const match of content.matchAll( TOKEN_PATTERN ) ) {\<close>
  \<^verbatim>\<open>    const [ , token, path = DEFAULT_PATH ] = match;\<close>
  \<^verbatim>\<open>    tokens.push( [ token, path ] );\<close>
  \<^verbatim>\<open>}\<close>
  The default of the destructuring applies where group 2 is \<open>undefined\<close>.
\<close>

definition collectTokens :: "jsstring \<Rightarrow> token list" where
  "collectTokens content =
     map (\<lambda>(token, path). (token, case path of None \<Rightarrow> DEFAULT_PATH | Some p \<Rightarrow> p))
       (matchAll content)"

text \<open>
  The \<open>transform\<close> method of \<open>filterTokenTransform\<close>. Its effects are what it pushes
  downstream, at most one tuple, and the argument it hands to \<open>callback\<close>, which is
  the error it reports. \<open>if ( content )\<close> tests truthiness: \<open>undefined\<close> and the empty
  string are both falsy.
\<close>

record transform_result =
  pushed :: "fileData option"
  callback_error :: "read_error option"

definition filterTokenTransform :: "filesystem \<Rightarrow> jsstring \<Rightarrow> transform_result" where
  "filterTokenTransform fs file =
     (let content = readContent fs file
      in \<lparr>pushed =
            (case content of
               None \<Rightarrow> None
             | Some c \<Rightarrow>
                 if c = [] then None
                 else (let tokens = collectTokens c
                       in if tokens \<noteq> [] then Some (file, tokens) else None)),
          callback_error = None\<rparr>)"

section \<open>Token substitution\<close>

text \<open>
  A call of \<open>execa\<close> names the program, its arguments and the \<open>shell\<close> option. The
  promise it returns settles when the child process has ended: fulfilled, or rejected
  with an error. What the generator does is a parameter of the model: a function
  from the call and the state of the world (the files the generator rewrites) to the
  outcome and the new state.
\<close>

record invocation =
  command :: jsstring
  arguments :: "jsstring list"
  shell :: bool

datatype exec_error = NonZeroExit nat | SpawnFailed

type_synonym 'w execa = "invocation \<Rightarrow> 'w \<Rightarrow> (exec_error + unit) \<times> 'w"

text \<open>The state of a run: the world, and the calls of \<open>execa\<close> made so far, oldest first.\<close>

record 'w run =
  world :: 'w
  invoked :: "invocation list"

text \<open>
  The call of the documentation generator for one token of a file, \<open>output\<close> being
  the path of the file from the root:
  \<^verbatim>\<open>execa(\<close>
  \<^verbatim>\<open>    join( __dirname, '..', '..', 'node_modules', '.bin', 'docgen' ),\<close>
  \<^verbatim>\<open>    [\<close>
  \<^verbatim>\<open>        relative( ROOT_DIR, resolve( dirname( file ), path ) ),\<close>
  \<^verbatim>\<open>        `--output ${ output }`,\<close>
  \<^verbatim>\<open>        '--to-token',\<close>
  \<^verbatim>\<open>        `--use-token "${ token }"`,\<close>
  \<^verbatim>\<open>        '--ignore "/unstable|experimental/i"',\<close>
  \<^verbatim>\<open>    ],\<close>
  \<^verbatim>\<open>    { shell: true }\<close>
  \<^verbatim>\<open>)\<close>
\<close>

definition docgenCall :: "env \<Rightarrow> jsstring \<Rightarrow> jsstring \<Rightarrow> token \<Rightarrow> invocation" where
  "docgenCall E file output tok =
     (case tok of
        (token, path) \<Rightarrow>
          \<lparr>command =
             join [script_dirname E, ascii ''..'', ascii ''..'', ascii ''node_modules'',
                   ascii ''.bin'', ascii ''docgen''],
           arguments =
             [relative E (ROOT_DIR E) (resolve E [dirname file, path]),
              ascii ''--output '' @ output,
              ascii ''--to-token'',
              ascii ''--use-token \"'' @ token @ ascii ''\"'',
              ascii ''--ignore \"/unstable|experimental/i\"''],
           shell = True\<rparr>)"

text \<open>
  The loop of the \<open>data\<close> handler:
  \<^verbatim>\<open>for ( const [ token, path ] of tokens ) { await execa( ... ); }\<close>
  The next call is made once the promise of the previous one is fulfilled, so it
  runs in the world the previous one left. \<open>await\<close> on a rejected promise throws;
  nothing in the handler catches, so the loop ends there and the promise of the
  handler is rejected with that error.
\<close>

fun forTokens ::
  "'w execa \<Rightarrow> env \<Rightarrow> jsstring \<Rightarrow> jsstring \<Rightarrow> token list \<Rightarrow> 'w run
     \<Rightarrow> (exec_error + unit) \<times> 'w run" where
  "forTokens execa E file output [] st = (Inr (), st)"
| "forTokens execa E file output (tok # tokens) st =
     (let call = docgenCall E file output tok
      in (case execa call (world st) of
            (Inl err, w) \<Rightarrow> (Inl err, \<lparr>world = w, invoked = invoked st @ [call]\<rparr>)
          | (Inr u, w) \<Rightarrow>
              forTokens execa E file output tokens
                \<lparr>world = w, invoked = invoked st @ [call]\<rparr>))"

text \<open>
  The \<open>data\<close> handler:
  \<^verbatim>\<open>const [ file, tokens ] = data;\<close>
  \<^verbatim>\<open>const output = relative( ROOT_DIR, file );\<close>
  followed by the loop.
\<close>

definition onData ::
  "'w execa \<Rightarrow> env \<Rightarrow> fileData \<Rightarrow> 'w run \<Rightarrow> (exec_error + unit) \<times> 'w run" where
  "onData execa E data st =
     (case data of
        (file, tokens) \<Rightarrow>
          (let output = relative E (ROOT_DIR E) file
           in forTokens execa E file output tokens st))"

text \<open>
  One file of the stream through the pipeline: the transform, then the handler on
  what the transform pushed.
\<close>

definition processFile ::
  "filesystem \<Rightarrow> 'w execa \<Rightarrow> env \<Rightarrow> jsstring \<Rightarrow> 'w run \<Rightarrow> (exec_error + unit) \<times> 'w run" where
  "processFile fs execa E file st =
     (case pushed (filterTokenTransform fs file) of
        None \<Rightarrow> (Inr (), st)
      | Some data \<Rightarrow> onData execa E data st)"

section \<open>Markers in a content\<close>

text \<open>
  A match of the pattern that starts in the first part of a content may run into the
  second part. \<open>matchesEndWithin pre rest\<close> says that none does: every match that
  starts in \<open>pre\<close> also ends in \<open>pre\<close>, so the scan arrives at the start of \<open>rest\<close>.
\<close>

definition matchesEndWithin :: "jsstring \<Rightarrow> jsstring \<Rightarrow> bool" where
  "matchesEndWithin pre rest =
     (\<forall>u\<in>set (suffixes pre). u \<noteq> [] \<longrightarrow>
        (case execAt (u @ rest) of
           None \<Rightarrow> True
         | Some (t, p, r) \<Rightarrow> length rest \<le> length r))"

section \<open>Doc files as text\<close>

text \<open>
  To say where the markers of a doc file stand, its content is written as prose and
  markers in turn: \<open>document prose [(t1, prose1), (t2, prose2)]\<close> is \<open>prose\<close>, the marker
  with the text \<open>t1\<close>, \<open>prose1\<close>, the marker with the text \<open>t2\<close>, \<open>prose2\<close>. The marker
  with the text \<open>t\<close> is \<open><!-- START TOKEN(t) -->\<close>. A marker text is what the file
  format allows between the parentheses: it is not empty, holds no line terminator
  and no closing \<open>) -->\<close>, and does not end with a pipe. Prose is plain when the
  opening \<open><!-- START TOKEN(\<close> does not occur in it. \<open>markerPath t\<close> is the source path
  the format gives the marker: what follows the first pipe after the first character
  of \<open>t\<close>, and \<open>src/index.js\<close> when there is no such pipe.
\<close>

definition marker :: "jsstring \<Rightarrow> jsstring" where
  "marker t = TOKEN_OPEN @ t @ TOKEN_CLOSE"

definition markerText :: "jsstring \<Rightarrow> bool" where
  "markerText t =
     (t \<noteq> [] \<and> (\<forall>c\<in>set t. \<not> isLineTerminator c) \<and> \<not> sublist TOKEN_CLOSE t
      \<and> last t \<noteq> PIPE)"

definition markerPath :: "jsstring \<Rightarrow> jsstring" where
  "markerPath t =
     (case dropWhile (\<lambda>c. c \<noteq> PIPE) (tl t) of
        [] \<Rightarrow> ascii ''src/index.js''
      | bar # path \<Rightarrow> path)"

definition plainText :: "jsstring \<Rightarrow> bool" where
  "plainText prose = (\<not> sublist TOKEN_OPEN prose)"

fun document :: "jsstring \<Rightarrow> (jsstring \<times> jsstring) list \<Rightarrow> jsstring" where
  "document prose [] = prose"
| "document prose ((t, prose') # markers) = prose @ marker t @ document prose' markers"

definition wellFormed :: "jsstring \<Rightarrow> (jsstring \<times> jsstring) list \<Rightarrow> bool" where
  "wellFormed prose markers =
     (plainText prose \<and> (\<forall>(t, prose')\<in>set markers. markerText t \<and> plainText prose'))"

text \<open>
  The calls of the generator that the markers of a file ask for, in the order of the
  markers; the world after a sequence of calls, each run in the world the call before
  it left; and whether call number \<open>j\<close> of a sequence is fulfilled when the calls
  before it have run.
\<close>

definition callsFor :: "env \<Rightarrow> jsstring \<Rightarrow> (jsstring \<times> jsstring) list \<Rightarrow> invocation list" where
  "callsFor E file markers =
     map (\<lambda>(t, prose'). docgenCall E file (relative E (ROOT_DIR E) file) (t, markerPath t))
       markers"

definition worldAfter :: "'w execa \<Rightarrow> 'w \<Rightarrow> invocation list \<Rightarrow> 'w" where
  "worldAfter execa w calls = foldl (\<lambda>w call. snd (execa call w)) w calls"

definition fulfilledAt :: "'w execa \<Rightarrow> 'w \<Rightarrow> invocation list \<Rightarrow> nat \<Rightarrow> bool" where
  "fulfilledAt execa w calls j =
     (fst (execa (calls ! j) (worldAfter execa w (take j calls))) = Inr ())"

section \<open>Files of a package\<close>





section \<open>Example inputs\<close>

text \<open>
  A repository at \<open>/repo\<close> with the script in \<open>/repo/bin/api-docs\<close>, a README with two
  markers, a README that is empty, one without a marker, and two generators: one that
  always ends well and counts its runs in the world, one that fails on a given
  argument.
\<close>

definition exampleEnv :: env where
  "exampleEnv = \<lparr>script_dirname = ascii ''/repo/bin/api-docs'', cwd = ascii ''/repo''\<rparr>"

definition exampleReadme :: jsstring where
  "exampleReadme = ascii ''/repo/packages/data/README.md''"

definition exampleContent :: jsstring where
  "exampleContent =
     ascii ''# Data\<newline><!-- START TOKEN(Actions|../core-data/src/actions.js) -->\<newline><!-- START TOKEN(API) -->\<newline>''"

definition exampleFs :: filesystem where
  "exampleFs file =
     (if file = exampleReadme then Inr exampleContent
      else if file = ascii ''/repo/packages/empty/README.md'' then Inr []
      else if file = ascii ''/repo/packages/plain/README.md'' then Inr (ascii ''# Plain\<newline>No marker here.'')
      else Inl ENOENT)"

definition alwaysDone :: "nat execa" where
  "alwaysDone call w = (Inr (), Suc w)"

definition failsOn :: "jsstring \<Rightarrow> nat execa" where
  "failsOn useToken call w =
     (if useToken \<in> set (arguments call) then (Inl (NonZeroExit 1), w) else (Inr (), Suc w))"

definition exampleStart :: "nat run" where
  "exampleStart = \<lparr>world = 0, invoked = []\<rparr>"


definition exampleMarkers :: "(jsstring \<times> jsstring) list" where
  "exampleMarkers =
     [(ascii ''Actions|../core-data/src/actions.js'', ascii ''\<newline>''),
      (ascii ''API'', ascii ''\<newline>'')]"


section \<open>Properties of the scan\<close>

lemma literal_append: "literal p (p @ s) = Some s"
  by (simp add: literal_Some_iff)

lemma literal_None_iff: "literal p s = None \<longleftrightarrow> \<not> prefix p s"
proof -
  have "literal p s \<noteq> None \<longleftrightarrow> prefix p s"
    by (auto simp: literal_Some_iff prefix_def)
  then show ?thesis by blast
qed

lemma TOKEN_CLOSE_code: "TOKEN_CLOSE = [0x29, 0x20, 0x2D, 0x2D, 0x3E]"
  by (simp add: TOKEN_CLOSE_def ascii_def)

lemma no_early_close:
  assumes "cs \<noteq> []" and "\<not> sublist TOKEN_CLOSE cs"
  shows "\<not> prefix TOKEN_CLOSE (cs @ TOKEN_CLOSE @ post)"
proof
  assume "prefix TOKEN_CLOSE (cs @ TOKEN_CLOSE @ post)"
  then consider "prefix TOKEN_CLOSE cs"
    | us where "TOKEN_CLOSE = cs @ us" "prefix us (TOKEN_CLOSE @ post)"
    by (auto simp: prefix_append)
  then show False
  proof cases
    case 1
    then have "sublist TOKEN_CLOSE cs" by (rule prefix_imp_sublist)
    with assms show False by simp
  next
    case 2
    show False
    proof (cases us)
      case Nil
      with 2 have "sublist TOKEN_CLOSE cs" by simp
      with assms show False by simp
    next
      case (Cons u us')
      with 2(2) have "u = 0x29" by (simp add: TOKEN_CLOSE_code)
      with 2(1) Cons assms(1) show False
        by (auto simp: TOKEN_CLOSE_code Cons_eq_append_conv)
    qed
  qed
qed


lemma sublist_ConsD: "\<not> sublist xs (c # cs) \<Longrightarrow> \<not> sublist xs cs"
  by (auto simp: sublist_Cons_right)

lemma optionalPath_close: "optionalPath (TOKEN_CLOSE @ post) = Some (None, post)"
proof -
  have "(case TOKEN_CLOSE @ post of [] \<Rightarrow> None
         | c # cs \<Rightarrow> if c = PIPE then pathGroup [] cs else None) = None"
    by (simp add: TOKEN_CLOSE_code PIPE_def)
  then show ?thesis
    unfolding optionalPath_def by (simp add: literal_append)
qed

lemma pathGroup_exact:
  assumes "q \<noteq> []" and "\<forall>c\<in>set q. \<not> isLineTerminator c" and "\<not> sublist TOKEN_CLOSE q"
  shows "pathGroup acc (q @ TOKEN_CLOSE @ post) = Some (acc @ q, post)"
  using assms
proof (induction q arbitrary: acc)
  case Nil
  then show ?case by simp
next
  case (Cons c cs)
  show ?case
  proof (cases "cs = []")
    case True
    with Cons.prems show ?thesis by (simp add: literal_append)
  next
    case False
    from Cons.prems(3) have ns: "\<not> sublist TOKEN_CLOSE cs" by (rule sublist_ConsD)
    with False have "literal TOKEN_CLOSE (cs @ TOKEN_CLOSE @ post) = None"
      by (simp add: literal_None_iff no_early_close)
    moreover have "pathGroup (acc @ [c]) (cs @ TOKEN_CLOSE @ post) = Some ((acc @ [c]) @ cs, post)"
      using False Cons.prems(2) ns by (intro Cons.IH) auto
    ultimately show ?thesis using Cons.prems(2) by simp
  qed
qed

lemma optionalPath_other:
  assumes "cs \<noteq> []" and "hd cs \<noteq> PIPE" and "\<not> sublist TOKEN_CLOSE cs"
  shows "optionalPath (cs @ TOKEN_CLOSE @ post) = None"
proof -
  have "literal TOKEN_CLOSE (cs @ TOKEN_CLOSE @ post) = None"
    using assms by (simp add: literal_None_iff no_early_close)
  then show ?thesis using assms(1,2)
    by (cases cs) (simp_all add: optionalPath_def)
qed

lemma tokenGroup_bare:
  assumes "\<forall>x\<in>set (c # cs). \<not> isLineTerminator x" and "PIPE \<notin> set cs"
    and "\<not> sublist TOKEN_CLOSE (c # cs)"
  shows "tokenGroup acc (c # cs @ TOKEN_CLOSE @ post) = Some (acc @ c # cs, None, post)"
  using assms
proof (induction cs arbitrary: c acc)
  case Nil
  then show ?case by (simp add: optionalPath_close)
next
  case (Cons d ds)
  from Cons.prems(3) have ns: "\<not> sublist TOKEN_CLOSE (d # ds)" by (rule sublist_ConsD)
  have "optionalPath ((d # ds) @ TOKEN_CLOSE @ post) = None"
    using Cons.prems(2) ns by (intro optionalPath_other) auto
  moreover have "tokenGroup (acc @ [c]) (d # ds @ TOKEN_CLOSE @ post)
      = Some ((acc @ [c]) @ d # ds, None, post)"
    using Cons.prems(1,2) ns by (intro Cons.IH) auto
  ultimately show ?case using Cons.prems(1) by simp
qed

lemma tokenGroup_piped:
  assumes "name \<noteq> []" and "path \<noteq> []"
    and "\<forall>x\<in>set (name @ PIPE # path). \<not> isLineTerminator x"
    and "\<not> sublist TOKEN_CLOSE (name @ PIPE # path)"
  shows "\<exists>p. tokenGroup acc (name @ PIPE # path @ TOKEN_CLOSE @ post)
            = Some (acc @ name @ PIPE # path, Some p, post)
          \<and> (PIPE \<notin> set (tl name) \<longrightarrow> p = path)"
  using assms
proof (induction name arbitrary: acc)
  case Nil
  then show ?case by simp
next
  case (Cons c cs)
  let ?full = "cs @ PIPE # path"
  from Cons.prems(4) have ns: "\<not> sublist TOKEN_CLOSE ?full"
    using sublist_ConsD [of TOKEN_CLOSE c ?full] by simp
  have lt: "\<forall>x\<in>set ?full. \<not> isLineTerminator x" and c: "\<not> isLineTerminator c"
    using Cons.prems(3) by auto
  show ?case
  proof (cases cs)
    case Nil
    have "\<not> sublist TOKEN_CLOSE path"
      using ns sublist_ConsD [of TOKEN_CLOSE PIPE path] Nil by simp
    then have "pathGroup [] (path @ TOKEN_CLOSE @ post) = Some ([] @ path, post)"
      using Cons.prems(2) lt by (intro pathGroup_exact) auto
    then have "optionalPath (PIPE # path @ TOKEN_CLOSE @ post) = Some (Some path, post)"
      by (simp add: optionalPath_def)
    then show ?thesis using c Nil by simp
  next
    case (Cons d ds)
    show ?thesis
    proof (cases "d = PIPE")
      case True
      let ?q = "ds @ PIPE # path"
      have "\<not> sublist TOKEN_CLOSE ?q"
        using ns sublist_ConsD [of TOKEN_CLOSE d ?q] Cons by simp
      then have "pathGroup [] (?q @ TOKEN_CLOSE @ post) = Some ([] @ ?q, post)"
        using lt Cons by (intro pathGroup_exact) auto
      then have "optionalPath (PIPE # ?q @ TOKEN_CLOSE @ post) = Some (Some ?q, post)"
        by (simp add: optionalPath_def)
      then show ?thesis using c Cons True by simp
    next
      case False
      have "optionalPath (?full @ TOKEN_CLOSE @ post) = None"
        using ns False Cons by (intro optionalPath_other) auto
      moreover obtain p where
        "tokenGroup (acc @ [c]) (cs @ PIPE # path @ TOKEN_CLOSE @ post)
           = Some ((acc @ [c]) @ cs @ PIPE # path, Some p, post)"
        "PIPE \<notin> set (tl cs) \<longrightarrow> p = path"
        using Cons.IH [of "acc @ [c]"] Cons Cons.prems(2) lt ns by auto
      ultimately show ?thesis using c Cons False by auto
    qed
  qed
qed


lemma literal_suffix: "literal p s = Some r \<Longrightarrow> suffix r s"
  by (simp add: literal_Some_iff suffix_def)

lemma pathGroup_suffix: "pathGroup acc s = Some (p, r) \<Longrightarrow> suffix r s"
proof (induction acc s rule: pathGroup.induct)
  case (1 acc)
  then show ?case by simp
next
  case (2 acc c cs)
  then show ?case
    by (auto split: if_splits option.splits dest: literal_suffix intro: suffix_ConsI)
qed

lemma optionalPath_suffix: "optionalPath s = Some (p, r) \<Longrightarrow> suffix r s"
  unfolding optionalPath_def
  by (auto split: list.splits if_splits option.splits
      dest: literal_suffix pathGroup_suffix intro: suffix_ConsI)

lemma tokenGroup_suffix: "tokenGroup acc s = Some (t, p, r) \<Longrightarrow> suffix r s"
proof (induction acc s rule: tokenGroup.induct)
  case (1 acc)
  then show ?case by simp
next
  case (2 acc c cs)
  show ?case
  proof (cases "optionalPath cs")
    case None
    with 2 show ?thesis by (auto split: if_splits intro: suffix_ConsI)
  next
    case (Some m)
    obtain g rest where m: "m = (g, rest)" by (cases m)
    with Some have "suffix rest cs" by (auto dest: optionalPath_suffix)
    moreover from 2(2) Some m have "r = rest"
      by (cases g) (auto split: if_splits)
    ultimately show ?thesis by (auto intro: suffix_ConsI)
  qed
qed

lemma execAt_suffix:
  assumes "execAt s = Some (t, p, r)"
  shows "suffix r s"
proof -
  from assms obtain u where u: "literal TOKEN_OPEN s = Some u" "tokenGroup [] u = Some (t, p, r)"
    unfolding execAt_def by (auto split: option.splits)
  from u(2) have "suffix r u" by (rule tokenGroup_suffix)
  moreover from u(1) have "suffix u s" by (rule literal_suffix)
  ultimately show ?thesis by (rule suffix_order.trans)
qed

lemma suffix_append_split:
  assumes "suffix r (pre @ rest)" and "length rest \<le> length r"
  shows "\<exists>pre'. r = pre' @ rest \<and> suffix pre' pre"
proof -
  from assms(1) obtain zs where "pre @ rest = zs @ r" by (auto simp: suffix_def)
  then consider us where "pre = zs @ us" "us @ rest = r"
    | us where "pre @ us = zs" "rest = us @ r"
    by (auto simp: append_eq_append_conv2)
  then show ?thesis
  proof cases
    case 1
    then show ?thesis by (auto simp: suffix_def)
  next
    case 2
    with assms(2) have "us = []" by simp
    with 2 show ?thesis by (auto simp: suffix_def)
  qed
qed

lemma matchesEndWithin_suffix:
  assumes "matchesEndWithin pre rest" and "suffix pre' pre"
  shows "matchesEndWithin pre' rest"
proof -
  have "set (suffixes pre') \<subseteq> set (suffixes pre)"
    using assms(2) by (auto simp: in_set_suffixes intro: suffix_order.trans)
  with assms(1) show ?thesis unfolding matchesEndWithin_def by blast
qed

lemma matchesEndWithinD:
  assumes "matchesEndWithin pre rest" and "pre \<noteq> []"
    and "execAt (pre @ rest) = Some (t, p, r)"
  shows "length rest \<le> length r"
proof -
  have "pre \<in> set (suffixes pre)" by (simp add: in_set_suffixes)
  with assms(1,2) have
    "case execAt (pre @ rest) of None \<Rightarrow> True | Some (t, p, r) \<Rightarrow> length rest \<le> length r"
    unfolding matchesEndWithin_def by blast
  with assms(3) show ?thesis by simp
qed

lemma matchAll_append:
  "matchesEndWithin pre rest \<Longrightarrow> \<exists>ms. matchAll (pre @ rest) = ms @ matchAll rest"
proof (induction "length pre" arbitrary: pre rule: less_induct)
  case less
  show ?case
  proof (cases pre)
    case Nil
    then show ?thesis by simp
  next
    case (Cons c cs)
    show ?thesis
    proof (cases "execAt (pre @ rest)")
      case None
      have "suffix cs pre" using Cons by (simp add: suffix_ConsI)
      with less.prems have "matchesEndWithin cs rest"
        by (rule matchesEndWithin_suffix)
      moreover have "length cs < length pre" using Cons by simp
      ultimately obtain ms where ms: "matchAll (cs @ rest) = ms @ matchAll rest"
        using less.hyps by blast
      have "matchAll (pre @ rest) = matchAll (cs @ rest)"
        using None Cons by (subst matchAll.simps) simp
      with ms show ?thesis by simp
    next
      case (Some m)
      obtain t p r where "m = (t, p, r)" by (cases m)
      with Some have m: "execAt (pre @ rest) = Some (t, p, r)" by simp
      have "pre \<noteq> []" using Cons by simp
      with less.prems have "length rest \<le> length r"
        using m by (rule matchesEndWithinD)
      moreover from m have "suffix r (pre @ rest)" by (rule execAt_suffix)
      ultimately obtain pre' where pre': "r = pre' @ rest" "suffix pre' pre"
        using suffix_append_split by blast
      from m have "length r < length (pre @ rest)" by (rule execAt_length)
      with pre'(1) have "length pre' < length pre" by simp
      moreover have "matchesEndWithin pre' rest"
        using less.prems pre'(2) by (rule matchesEndWithin_suffix)
      ultimately obtain ms where ms: "matchAll (pre' @ rest) = ms @ matchAll rest"
        using less.hyps by blast
      have "matchAll (pre @ rest) = (t, p) # matchAll r"
        using m by (subst matchAll.simps) simp
      with ms pre'(1) show ?thesis by simp
    qed
  qed
qed

lemma matchAll_none:
  "\<forall>s\<in>set (suffixes content). execAt s = None \<Longrightarrow> matchAll content = []"
proof (induction content)
  case Nil
  then show ?case by (subst matchAll.simps) simp
next
  case (Cons c cs)
  then have "execAt (c # cs) = None" and "matchAll cs = []"
    by (auto simp: in_set_suffixes intro: suffix_ConsI)
  then show ?case by (subst matchAll.simps) simp
qed

lemma execAt_open: "execAt (TOKEN_OPEN @ s) = tokenGroup [] s"
  by (simp add: execAt_def literal_append)


lemma collectTokens_append:
  "matchAll (pre @ rest) = ms @ matchAll rest \<Longrightarrow>
   \<exists>before. collectTokens (pre @ rest) = before @ collectTokens rest"
  by (simp add: collectTokens_def)

lemma collectTokens_match:
  "execAt s = Some (t, p, r) \<Longrightarrow>
   collectTokens s = (t, case p of None \<Rightarrow> DEFAULT_PATH | Some q \<Rightarrow> q) # collectTokens r"
  unfolding collectTokens_def by (subst matchAll.simps) simp

lemma bare_marker_tokens:
  assumes "name \<noteq> []"
    and "\<forall>c\<in>set name. \<not> isLineTerminator c"
    and "PIPE \<notin> set name"
    and "\<not> sublist TOKEN_CLOSE name"
    and "matchesEndWithin pre (TOKEN_OPEN @ name @ TOKEN_CLOSE @ post)"
  shows "\<exists>before. collectTokens (pre @ TOKEN_OPEN @ name @ TOKEN_CLOSE @ post)
           = before @ (name, DEFAULT_PATH) # collectTokens post"
proof -
  let ?marker = "TOKEN_OPEN @ name @ TOKEN_CLOSE @ post"
  from assms(1) obtain c cs where name: "name = c # cs" by (cases name) auto
  have "tokenGroup [] (c # cs @ TOKEN_CLOSE @ post) = Some ([] @ c # cs, None, post)"
    using assms(2,3,4) unfolding name by (intro tokenGroup_bare) auto
  then have "execAt ?marker = Some (name, None, post)"
    by (simp add: execAt_open name)
  then have here: "collectTokens ?marker = (name, DEFAULT_PATH) # collectTokens post"
    by (simp add: collectTokens_match)
  from assms(5) obtain ms where "matchAll (pre @ ?marker) = ms @ matchAll ?marker"
    using matchAll_append by blast
  then obtain before where "collectTokens (pre @ ?marker) = before @ collectTokens ?marker"
    using collectTokens_append by blast
  with here show ?thesis by auto
qed

lemma piped_marker_tokens:
  assumes "name \<noteq> []" and "path \<noteq> []"
    and "\<forall>c\<in>set (name @ PIPE # path). \<not> isLineTerminator c"
    and "\<not> sublist TOKEN_CLOSE (name @ PIPE # path)"
    and "matchesEndWithin pre (TOKEN_OPEN @ name @ PIPE # path @ TOKEN_CLOSE @ post)"
  shows "\<exists>before p.
           collectTokens (pre @ TOKEN_OPEN @ name @ PIPE # path @ TOKEN_CLOSE @ post)
             = before @ (name @ PIPE # path, p) # collectTokens post
           \<and> (PIPE \<notin> set (tl name) \<longrightarrow> p = path)"
proof -
  let ?marker = "TOKEN_OPEN @ name @ PIPE # path @ TOKEN_CLOSE @ post"
  obtain p where p:
    "tokenGroup [] (name @ PIPE # path @ TOKEN_CLOSE @ post)
       = Some ([] @ name @ PIPE # path, Some p, post)"
    "PIPE \<notin> set (tl name) \<longrightarrow> p = path"
    using tokenGroup_piped [OF assms(1,2,3,4)] by blast
  from p(1) have "execAt ?marker = Some (name @ PIPE # path, Some p, post)"
    by (simp add: execAt_open)
  then have here: "collectTokens ?marker = (name @ PIPE # path, p) # collectTokens post"
    by (simp add: collectTokens_match)
  from assms(5) obtain ms where "matchAll (pre @ ?marker) = ms @ matchAll ?marker"
    using matchAll_append by blast
  then obtain before where "collectTokens (pre @ ?marker) = before @ collectTokens ?marker"
    using collectTokens_append by blast
  with here have "collectTokens (pre @ ?marker)
      = before @ (name @ PIPE # path, p) # collectTokens post" by simp
  with p(2) show ?thesis by blast
qed

lemma TOKEN_OPEN_code:
  "TOKEN_OPEN = 0x3C # [0x21, 0x2D, 0x2D, 0x20, 0x53, 0x54, 0x41, 0x52, 0x54, 0x20,
                        0x54, 0x4F, 0x4B, 0x45, 0x4E, 0x28]"
  by (simp add: TOKEN_OPEN_def ascii_def)

lemma no_early_open:
  assumes "u \<noteq> []" and "\<not> sublist TOKEN_OPEN u" and "rest = [] \<or> prefix TOKEN_OPEN rest"
  shows "\<not> prefix TOKEN_OPEN (u @ rest)"
proof
  assume "prefix TOKEN_OPEN (u @ rest)"
  then consider "prefix TOKEN_OPEN u"
    | us where "TOKEN_OPEN = u @ us" "prefix us rest"
    by (auto simp: prefix_append)
  then show False
  proof cases
    case 1
    then have "sublist TOKEN_OPEN u" by (rule prefix_imp_sublist)
    with assms(2) show False by simp
  next
    case 2
    show False
    proof (cases us)
      case Nil
      with 2 have "sublist TOKEN_OPEN u" by simp
      with assms(2) show False by simp
    next
      case (Cons x xs)
      with 2(2) assms(3) have "prefix TOKEN_OPEN rest" by auto
      with 2(2) Cons have "x = 0x3C"
        by (cases rest) (auto simp: TOKEN_OPEN_code)
      moreover obtain c cs where u: "u = c # cs" using assms(1) by (cases u) auto
      from 2(1) have "tl TOKEN_OPEN = tl (u @ us)" by simp
      then have "x \<in> set (tl TOKEN_OPEN)" by (simp add: u Cons)
      ultimately show False by (simp add: TOKEN_OPEN_code)
    qed
  qed
qed

lemma collectTokens_plain:
  assumes "plainText prose" and "rest = [] \<or> prefix TOKEN_OPEN rest"
  shows "collectTokens (prose @ rest) = collectTokens rest"
  using assms(1)
proof (induction prose)
  case Nil
  then show ?case by simp
next
  case (Cons c cs)
  from Cons.prems have ns: "\<not> sublist TOKEN_OPEN (c # cs)" by (simp add: plainText_def)
  then have "plainText cs" unfolding plainText_def by (rule sublist_ConsD)
  then have ih: "collectTokens (cs @ rest) = collectTokens rest" by (rule Cons.IH)
  have "\<not> prefix TOKEN_OPEN ((c # cs) @ rest)"
    by (rule no_early_open [OF _ ns assms(2)]) simp
  then have "literal TOKEN_OPEN ((c # cs) @ rest) = None"
    unfolding literal_None_iff .
  then have "execAt ((c # cs) @ rest) = None"
    unfolding execAt_def by simp
  then have "matchAll ((c # cs) @ rest) = matchAll (cs @ rest)"
    by (subst matchAll.simps) simp
  with ih show ?case by (simp add: collectTokens_def)
qed

lemma collectTokens_Nil: "collectTokens [] = []"
  unfolding collectTokens_def
  by (subst matchAll.simps) (simp add: execAt_def TOKEN_OPEN_code)

lemma marker_match:
  assumes "markerText t"
  shows "collectTokens (marker t @ post) = (t, markerPath t) # collectTokens post"
proof -
  from assms obtain c cs where t: "t = c # cs" by (cases t) (auto simp: markerText_def)
  from assms have lt: "\<forall>x\<in>set t. \<not> isLineTerminator x" and ns: "\<not> sublist TOKEN_CLOSE t"
    and last: "last t \<noteq> PIPE"
    by (auto simp: markerText_def)
  show ?thesis
  proof (cases "PIPE \<in> set cs")
    case False
    then have "tokenGroup [] (c # cs @ TOKEN_CLOSE @ post) = Some ([] @ c # cs, None, post)"
      using lt ns unfolding t by (intro tokenGroup_bare) auto
    then have "execAt (marker t @ post) = Some (t, None, post)"
      by (simp add: marker_def execAt_open t)
    moreover have dw: "dropWhile (\<lambda>x. x \<noteq> PIPE) cs = []"
      using False by (auto simp: dropWhile_eq_Nil_conv)
    have "markerPath t = DEFAULT_PATH"
      unfolding markerPath_def t list.sel dw by (simp add: DEFAULT_PATH_def)
    ultimately show ?thesis
      by (simp add: collectTokens_match)
  next
    case True
    define name where "name = c # takeWhile (\<lambda>x. x \<noteq> PIPE) cs"
    define path where "path = tl (dropWhile (\<lambda>x. x \<noteq> PIPE) cs)"
    from True have ne: "dropWhile (\<lambda>x. x \<noteq> PIPE) cs \<noteq> []"
      by (auto simp: dropWhile_eq_Nil_conv)
    from hd_dropWhile [OF ne] have "hd (dropWhile (\<lambda>x. x \<noteq> PIPE) cs) = PIPE" by simp
    with ne have dw: "dropWhile (\<lambda>x. x \<noteq> PIPE) cs = PIPE # path"
      unfolding path_def by (cases "dropWhile (\<lambda>x. x \<noteq> PIPE) cs") auto
    have split: "t = name @ PIPE # path"
      unfolding t name_def using takeWhile_dropWhile_id [of "\<lambda>x. x \<noteq> PIPE" cs] dw by simp
    have "path \<noteq> []" using last unfolding split by auto
    moreover have "name \<noteq> []" by (simp add: name_def)
    ultimately obtain p where p:
      "tokenGroup [] (name @ PIPE # path @ TOKEN_CLOSE @ post)
         = Some ([] @ name @ PIPE # path, Some p, post)"
      "PIPE \<notin> set (tl name) \<longrightarrow> p = path"
      using tokenGroup_piped [of name path "[]" post] lt ns unfolding split by blast
    have "PIPE \<notin> set (tl name)"
      unfolding name_def by (auto dest: set_takeWhileD)
    with p have "execAt (marker t @ post) = Some (t, Some path, post)"
      by (simp add: marker_def execAt_open split)
    then show ?thesis
      by (simp add: collectTokens_match markerPath_def t dw)
  qed
qed

lemma marker_prefix: "prefix TOKEN_OPEN (marker t @ rest)"
  by (simp add: marker_def)

lemma collectTokens_document:
  "wellFormed prose markers \<Longrightarrow>
   collectTokens (document prose markers) = map (\<lambda>(t, prose'). (t, markerPath t)) markers"
proof (induction markers arbitrary: prose)
  case Nil
  then have "collectTokens (prose @ []) = collectTokens []"
    by (intro collectTokens_plain) (simp_all add: wellFormed_def)
  then show ?case by (simp add: collectTokens_Nil)
next
  case (Cons m markers)
  obtain t prose' where m: "m = (t, prose')" by (cases m)
  from Cons.prems have wf: "plainText prose" "markerText t" "wellFormed prose' markers"
    by (auto simp: wellFormed_def m)
  have "prefix TOKEN_OPEN (marker t @ document prose' markers)"
    by (rule marker_prefix)
  then have "collectTokens (prose @ marker t @ document prose' markers)
      = collectTokens (marker t @ document prose' markers)"
    using wf(1) by (intro collectTokens_plain) simp_all
  also have "\<dots> = (t, markerPath t) # collectTokens (document prose' markers)"
    using wf(2) by (rule marker_match)
  finally show ?case using Cons.IH [OF wf(3)] by (simp add: m)
qed

section \<open>Properties of the handler\<close>

lemma forTokens_append:
  "forTokens execa E file output (xs @ ys) st =
     (case forTokens execa E file output xs st of
        (Inl err, st') \<Rightarrow> (Inl err, st')
      | (Inr u, st') \<Rightarrow> forTokens execa E file output ys st')"
proof (induction xs arbitrary: st)
  case Nil
  then show ?case by simp
next
  case (Cons x xs)
  show ?case
  proof (cases "execa (docgenCall E file output x) (world st)")
    case (Pair r w)
    then show ?thesis using Cons.IH by (cases r) (simp_all add: Let_def)
  qed
qed

lemma forTokens_trace:
  "\<exists>k\<le>length tokens.
     invoked (snd (forTokens execa E file output tokens st))
       = invoked st @ map (docgenCall E file output) (take k tokens)
     \<and> world (snd (forTokens execa E file output tokens st))
       = foldl (\<lambda>w call. snd (execa call w)) (world st)
           (map (docgenCall E file output) (take k tokens))
     \<and> (fst (forTokens execa E file output tokens st) = Inr () \<longrightarrow> k = length tokens)
     \<and> (tokens \<noteq> [] \<longrightarrow> 0 < k)"
proof (induction tokens arbitrary: st)
  case Nil
  then show ?case by simp
next
  case (Cons tok tokens)
  let ?call = "docgenCall E file output tok"
  obtain r w where rw: "execa ?call (world st) = (r, w)" by (cases "execa ?call (world st)")
  let ?st' = "\<lparr>world = w, invoked = invoked st @ [?call]\<rparr>"
  show ?case
  proof (cases r)
    case (Inl err)
    with rw have "forTokens execa E file output (tok # tokens) st = (Inl err, ?st')"
      by (simp add: Let_def)
    with rw show ?thesis by (intro exI [of _ 1]) simp
  next
    case (Inr u)
    with rw have eq: "forTokens execa E file output (tok # tokens) st
        = forTokens execa E file output tokens ?st'"
      by (simp add: Let_def)
    from Cons.IH [of ?st'] obtain k where k: "k \<le> length tokens"
      "invoked (snd (forTokens execa E file output tokens ?st'))
         = invoked ?st' @ map (docgenCall E file output) (take k tokens)"
      "world (snd (forTokens execa E file output tokens ?st'))
         = foldl (\<lambda>w call. snd (execa call w)) (world ?st')
             (map (docgenCall E file output) (take k tokens))"
      "fst (forTokens execa E file output tokens ?st') = Inr () \<longrightarrow> k = length tokens"
      by blast
    show ?thesis
      using k rw unfolding eq by (intro exI [of _ "Suc k"]) simp
  qed
qed

lemma processFile_readable:
  "fs file = Inr content \<Longrightarrow>
   processFile fs execa E file st
     = forTokens execa E file (relative E (ROOT_DIR E) file) (collectTokens content) st"
  by (simp add: processFile_def filterTokenTransform_def readContent_def onData_def
      collectTokens_def matchAll.simps [of "[]"] execAt_def TOKEN_OPEN_def ascii_def Let_def)

lemma worldAfter_Cons:
  "worldAfter execa w (c # cs) = worldAfter execa (snd (execa c w)) cs"
  by (simp add: worldAfter_def)

lemma fulfilledAt_0: "fulfilledAt execa w (c # cs) 0 \<longleftrightarrow> fst (execa c w) = Inr ()"
  by (simp add: fulfilledAt_def worldAfter_def)

lemma fulfilledAt_Suc:
  "fulfilledAt execa w (c # cs) (Suc j) \<longleftrightarrow> fulfilledAt execa (snd (execa c w)) cs j"
  by (simp add: fulfilledAt_def worldAfter_def)

lemma forTokens_exact:
  "\<exists>k\<le>length tokens.
     invoked (snd (forTokens execa E file output tokens st))
       = invoked st @ take k (map (docgenCall E file output) tokens)
     \<and> world (snd (forTokens execa E file output tokens st))
       = worldAfter execa (world st) (take k (map (docgenCall E file output) tokens))
     \<and> (\<forall>i<length tokens.
           i < k \<longleftrightarrow>
             (\<forall>j<i. fulfilledAt execa (world st) (map (docgenCall E file output) tokens) j))
     \<and> (fst (forTokens execa E file output tokens st) = Inr () \<longleftrightarrow>
           (\<forall>j<length tokens.
              fulfilledAt execa (world st) (map (docgenCall E file output) tokens) j))"
proof (induction tokens arbitrary: st)
  case Nil
  then show ?case by (simp add: worldAfter_def)
next
  case (Cons tok tokens)
  let ?call = "docgenCall E file output tok"
  let ?calls = "map (docgenCall E file output) tokens"
  obtain r w where rw: "execa ?call (world st) = (r, w)" by (cases "execa ?call (world st)")
  let ?st' = "\<lparr>world = w, invoked = invoked st @ [?call]\<rparr>"
  show ?case
  proof (cases r)
    case (Inl err)
    with rw have eq: "forTokens execa E file output (tok # tokens) st = (Inl err, ?st')"
      by (simp add: Let_def)
    have no: "\<not> fulfilledAt execa (world st) (?call # ?calls) 0"
      using rw Inl by (simp add: fulfilledAt_0)
    have "\<forall>i<length (tok # tokens).
        i < 1 \<longleftrightarrow> (\<forall>j<i. fulfilledAt execa (world st) (?call # ?calls) j)"
    proof (intro allI impI)
      fix i assume "i < length (tok # tokens)"
      show "i < 1 \<longleftrightarrow> (\<forall>j<i. fulfilledAt execa (world st) (?call # ?calls) j)"
      proof (cases i)
        case 0
        then show ?thesis by simp
      next
        case (Suc n)
        with no show ?thesis by auto
      qed
    qed
    moreover have "\<not> (\<forall>j<length (tok # tokens). fulfilledAt execa (world st) (?call # ?calls) j)"
      using no by auto
    ultimately show ?thesis
      unfolding eq using rw by (intro exI [of _ 1]) (simp add: worldAfter_def)
  next
    case (Inr u)
    with rw have eq: "forTokens execa E file output (tok # tokens) st
        = forTokens execa E file output tokens ?st'"
      by (simp add: Let_def)
    have yes: "fulfilledAt execa (world st) (?call # ?calls) 0"
      using rw Inr by (simp add: fulfilledAt_0)
    have shift: "fulfilledAt execa (world st) (?call # ?calls) (Suc j)
        \<longleftrightarrow> fulfilledAt execa w ?calls j" for j
      using rw by (simp add: fulfilledAt_Suc)
    from Cons.IH [of ?st'] obtain k where k: "k \<le> length tokens"
      "invoked (snd (forTokens execa E file output tokens ?st')) = invoked ?st' @ take k ?calls"
      "world (snd (forTokens execa E file output tokens ?st'))
         = worldAfter execa (world ?st') (take k ?calls)"
      "\<forall>i<length tokens. i < k \<longleftrightarrow> (\<forall>j<i. fulfilledAt execa (world ?st') ?calls j)"
      "fst (forTokens execa E file output tokens ?st') = Inr () \<longleftrightarrow>
         (\<forall>j<length tokens. fulfilledAt execa (world ?st') ?calls j)"
      by blast
    have "\<forall>i<length (tok # tokens).
        i < Suc k \<longleftrightarrow> (\<forall>j<i. fulfilledAt execa (world st) (?call # ?calls) j)"
    proof (intro allI impI)
      fix i assume i: "i < length (tok # tokens)"
      show "i < Suc k \<longleftrightarrow> (\<forall>j<i. fulfilledAt execa (world st) (?call # ?calls) j)"
      proof (cases i)
        case 0
        then show ?thesis by simp
      next
        case (Suc n)
        with i have "n < length tokens" by simp
        with k(4) have "n < k \<longleftrightarrow> (\<forall>j<n. fulfilledAt execa w ?calls j)" by simp
        then show ?thesis
          unfolding Suc All_less_Suc2 using yes shift by simp
      qed
    qed
    moreover have "fst (forTokens execa E file output tokens ?st') = Inr () \<longleftrightarrow>
        (\<forall>j<length (tok # tokens). fulfilledAt execa (world st) (?call # ?calls) j)"
      using k(5) yes shift unfolding length_Cons All_less_Suc2 by simp
    ultimately show ?thesis
      unfolding eq using k(1,2,3) rw
      by (intro exI [of _ "Suc k"]) (simp add: worldAfter_Cons)
  qed
qed


lemma callsFor_tokens:
  "callsFor E file markers
     = map (docgenCall E file (relative E (ROOT_DIR E) file))
         (map (\<lambda>(t, prose'). (t, markerPath t)) markers)"
  by (simp add: callsFor_def split_beta)

section \<open>Properties of the file names\<close>

lemma lastSegment_plain:
  assumes "SLASH \<notin> set s"
  shows "lastSegment s = s"
proof -
  have a: "dropWhile (\<lambda>x. x = SLASH) (rev s) = rev s"
    using assms by (cases "rev s") (auto simp: rev_eq_Cons_iff)
  have b: "takeWhile (\<lambda>x. x \<noteq> SLASH) (rev s) = rev s"
    using assms by (intro takeWhile_eq_all_conv [THEN iffD2]) auto
  show ?thesis
    unfolding lastSegment_def stripTrailingSeps_def a rev_rev_ident b ..
qed

lemma basename_md:
  assumes "SLASH \<notin> set b" and "b \<noteq> []"
  shows "basename (b @ ascii ''.md'') (ascii ''.md'') = b"
proof -
  have md: "ascii ''.md'' = [0x2E, 0x6D, 0x64]" by (simp add: ascii_def)
  have "SLASH \<notin> set (b @ ascii ''.md'')" using assms(1) by (simp add: md SLASH_def)
  then have seg: "lastSegment (b @ ascii ''.md'') = b @ ascii ''.md''"
    by (rule lastSegment_plain)
  have ne: "ascii ''.md'' \<noteq> b @ ascii ''.md''" using assms(2) by simp
  show ?thesis
    unfolding basename_def seg using ne assms(2)
    by (simp add: md suffix_def)
qed

lemma replaceFirst_append:
  "a \<notin> set xs \<Longrightarrow> replaceFirst a b (xs @ a # ys) = xs @ b # ys"
  by (induction xs) auto

lemma getDataDocumentationFile_other:
  assumes "packageName \<noteq> ascii ''core-data''"
  shows "getDataDocumentationFile packageName = ascii ''data-core-'' @ packageName @ ascii ''.md''"
proof -
  have "replaceFirst SLASH 0x2D (ascii ''core'' @ SLASH # packageName)
      = ascii ''core'' @ 0x2D # packageName"
    by (rule replaceFirst_append) (simp add: ascii_def SLASH_def)
  moreover have "ascii ''/'' = [SLASH]" by (simp add: ascii_def SLASH_def)
  ultimately show ?thesis
    using assms by (simp add: getDataDocumentationFile_def getPackageStoreName_def ascii_def)
qed

lemma getDataDocumentationFile_core_data:
  "getDataDocumentationFile (ascii ''core-data'') = ascii ''data-core.md''"
  by (simp add: getDataDocumentationFile_def getPackageStoreName_def ascii_def SLASH_def)

lemma getDataDocumentationFilePackage_other:
  assumes "packageName \<noteq> ascii ''core''"
  shows "getDataDocumentationFilePackage (ascii ''data-core-'' @ packageName) = packageName"
proof -
  have "ascii ''data-core-'' = ascii ''data-'' @ ascii ''core-''" by (simp add: ascii_def)
  then have "stripStart (ascii ''core-'')
      (stripStart (ascii ''data-'') (ascii ''data-core-'' @ packageName)) = packageName"
    by (simp add: stripStart_def)
  with assms show ?thesis by (simp add: getDataDocumentationFilePackage_def Let_def)
qed

lemma getDataDocumentationFilePackage_core:
  "getDataDocumentationFilePackage (ascii ''data-core'') = ascii ''core-data''"
  by (simp add: getDataDocumentationFilePackage_def stripStart_def ascii_def Let_def)

section \<open>Properties of the patterns\<close>


















section \<open>Properties of the paths\<close>



























section \<open>Claims\<close>

text \<open>
  C1. The generator is called for the tokens of a file in the order in which their
  markers stand in the file. For a readable file that is prose and well-formed
  markers in turn, the tokens extracted are those of the markers in the order of the
  text; the calls the pipeline makes are the calls for the first \<open>k\<close> markers, in
  that order, so the call for a marker \<open>A\<close> comes before the call for a later marker
  \<open>B\<close>; each call runs in the world the call before it left, that is after it has
  ended; the call for a marker is made exactly when the calls for all the markers
  before it were fulfilled; and when all the calls are fulfilled the handler is
  fulfilled and the calls are those for all the markers of the file.
\<close>

theorem calls_follow_token_order:
  assumes "fs file = Inr (document prose markers)" and "wellFormed prose markers"
  shows "collectTokens (document prose markers) = map (\<lambda>(t, prose'). (t, markerPath t)) markers
         \<and> (\<exists>k\<le>length markers.
               invoked (snd (processFile fs execa E file st))
                 = invoked st @ take k (callsFor E file markers)
               \<and> world (snd (processFile fs execa E file st))
                 = worldAfter execa (world st) (take k (callsFor E file markers))
               \<and> (\<forall>i<length markers.
                     i < k \<longleftrightarrow>
                       (\<forall>j<i. fulfilledAt execa (world st) (callsFor E file markers) j)))
         \<and> ((\<forall>j<length markers. fulfilledAt execa (world st) (callsFor E file markers) j)
              \<longrightarrow> fst (processFile fs execa E file st) = Inr ()
                \<and> invoked (snd (processFile fs execa E file st))
                    = invoked st @ callsFor E file markers)"
proof -
  let ?tokens = "map (\<lambda>(t, prose'). (t, markerPath t)) markers"
  let ?output = "relative E (ROOT_DIR E) file"
  let ?R = "forTokens execa E file ?output ?tokens st"
  have tokens: "collectTokens (document prose markers) = ?tokens"
    using assms(2) by (rule collectTokens_document)
  have R: "processFile fs execa E file st = ?R"
    unfolding processFile_readable [of fs "file" "document prose markers", OF assms(1)] tokens ..
  have calls: "callsFor E file markers = map (docgenCall E file ?output) ?tokens"
    by (rule callsFor_tokens)
  obtain k where k: "k \<le> length ?tokens"
    "invoked (snd ?R) = invoked st @ take k (map (docgenCall E file ?output) ?tokens)"
    "world (snd ?R) = worldAfter execa (world st) (take k (map (docgenCall E file ?output) ?tokens))"
    "\<forall>i<length ?tokens.
       i < k \<longleftrightarrow> (\<forall>j<i. fulfilledAt execa (world st) (map (docgenCall E file ?output) ?tokens) j)"
    "fst ?R = Inr () \<longleftrightarrow>
       (\<forall>j<length ?tokens. fulfilledAt execa (world st) (map (docgenCall E file ?output) ?tokens) j)"
    using forTokens_exact [of ?tokens execa E "file" ?output st] by blast
  have part2: "\<exists>k\<le>length markers.
      invoked (snd (processFile fs execa E file st)) = invoked st @ take k (callsFor E file markers)
      \<and> world (snd (processFile fs execa E file st))
        = worldAfter execa (world st) (take k (callsFor E file markers))
      \<and> (\<forall>i<length markers.
            i < k \<longleftrightarrow> (\<forall>j<i. fulfilledAt execa (world st) (callsFor E file markers) j))"
    unfolding R calls using k(1,2,3,4) by (intro exI [of _ k]) simp
  have part3: "fst (processFile fs execa E file st) = Inr ()
      \<and> invoked (snd (processFile fs execa E file st)) = invoked st @ callsFor E file markers"
    if all: "\<forall>j<length markers. fulfilledAt execa (world st) (callsFor E file markers) j"
  proof -
    have "length markers \<le> k"
    proof (rule ccontr)
      assume "\<not> length markers \<le> k"
      then have "k < length ?tokens" by simp
      moreover have "\<forall>j<k. fulfilledAt execa (world st) (map (docgenCall E file ?output) ?tokens) j"
        using all k(1) unfolding calls by simp
      ultimately have "k < k" using k(4) by blast
      then show False by simp
    qed
    with k(1) have "k = length ?tokens" by simp
    with k(2,5) all show ?thesis unfolding R calls by simp
  qed
  from tokens part2 part3 show ?thesis by blast
qed

theorem calls_follow_token_order_witness:
  "document (ascii ''# Data\<newline>'') exampleMarkers = exampleContent
   \<and> collectTokens exampleContent
     = [(ascii ''Actions|../core-data/src/actions.js'', ascii ''../core-data/src/actions.js''),
        (ascii ''API'', ascii ''src/index.js'')]
   \<and> fst (processFile exampleFs alwaysDone exampleEnv exampleReadme exampleStart) = Inr ()
   \<and> invoked (snd (processFile exampleFs alwaysDone exampleEnv exampleReadme exampleStart))
     = invoked exampleStart @ callsFor exampleEnv exampleReadme exampleMarkers
   \<and> map arguments (callsFor exampleEnv exampleReadme exampleMarkers)
     = [[ascii ''packages/core-data/src/actions.js'',
         ascii ''--output packages/data/README.md'',
         ascii ''--to-token'',
         ascii ''--use-token \"Actions|../core-data/src/actions.js\"'',
         ascii ''--ignore \"/unstable|experimental/i\"''],
        [ascii ''packages/data/src/index.js'',
         ascii ''--output packages/data/README.md'',
         ascii ''--to-token'',
         ascii ''--use-token \"API\"'',
         ascii ''--ignore \"/unstable|experimental/i\"'']]"
proof -
  have d: "document (ascii ''# Data\<newline>'') exampleMarkers = exampleContent" by code_simp
  have h1: "exampleFs exampleReadme = Inr (document (ascii ''# Data\<newline>'') exampleMarkers)"
    unfolding d by (simp add: exampleFs_def)
  have h2: "wellFormed (ascii ''# Data\<newline>'') exampleMarkers" by code_simp
  have h3: "\<forall>j<length exampleMarkers.
      fulfilledAt alwaysDone (world exampleStart) (callsFor exampleEnv exampleReadme exampleMarkers) j"
    by (simp add: fulfilledAt_def alwaysDone_def)
  have m: "map (\<lambda>(t, prose'). (t, markerPath t)) exampleMarkers
     = [(ascii ''Actions|../core-data/src/actions.js'', ascii ''../core-data/src/actions.js''),
        (ascii ''API'', ascii ''src/index.js'')]" by code_simp
  have a: "map arguments (callsFor exampleEnv exampleReadme exampleMarkers)
     = [[ascii ''packages/core-data/src/actions.js'',
         ascii ''--output packages/data/README.md'',
         ascii ''--to-token'',
         ascii ''--use-token \"Actions|../core-data/src/actions.js\"'',
         ascii ''--ignore \"/unstable|experimental/i\"''],
        [ascii ''packages/data/src/index.js'',
         ascii ''--output packages/data/README.md'',
         ascii ''--to-token'',
         ascii ''--use-token \"API\"'',
         ascii ''--ignore \"/unstable|experimental/i\"'']]" by code_simp
  note T = calls_follow_token_order
    [of exampleFs exampleReadme "ascii ''# Data\<newline>''" exampleMarkers alwaysDone exampleEnv
        exampleStart, OF h1 h2]
  from T have "collectTokens exampleContent
     = [(ascii ''Actions|../core-data/src/actions.js'', ascii ''../core-data/src/actions.js''),
        (ascii ''API'', ascii ''src/index.js'')]"
    unfolding d m by blast
  moreover from T h3 have
    "fst (processFile exampleFs alwaysDone exampleEnv exampleReadme exampleStart) = Inr ()
     \<and> invoked (snd (processFile exampleFs alwaysDone exampleEnv exampleReadme exampleStart))
       = invoked exampleStart @ callsFor exampleEnv exampleReadme exampleMarkers"
    by blast
  ultimately show ?thesis using d a by blast
qed

text \<open>
  C2, as the specification states it: package \<open>core\<close> maps to \<open>data-core-data.md\<close> and
  back. The code does not do that: the file of package \<open>core\<close> is \<open>data-core-core.md\<close>,
  and \<open>data-core-data.md\<close> is the file of package \<open>data\<close>.
\<close>

theorem core_pair_counterexample:
  "getDataDocumentationFile (ascii ''core'') = ascii ''data-core-core.md''
   \<and> getDataDocumentationFile (ascii ''core'') \<noteq> ascii ''data-core-data.md''
   \<and> getDataDocumentationFilePackage (basename (ascii ''data-core-data.md'') (ascii ''.md''))
       = ascii ''data''
   \<and> getDataDocumentationFilePackage (basename (ascii ''data-core-data.md'') (ascii ''.md''))
       \<noteq> ascii ''core''"
  by code_simp

text \<open>
  C2, amended. Deriving the package from the documentation file name, with the \<open>.md\<close>
  extension stripped by \<open>basename\<close>, undoes deriving the file name from the package,
  for every package name that holds no path separator and is not \<open>core\<close>: package
  \<open>core-data\<close> maps to \<open>data-core.md\<close> and back, any other package \<open>foo\<close> to
  \<open>data-core-foo.md\<close> and back.
\<close>

theorem package_and_doc_file_inverse:
  assumes "packageName \<noteq> ascii ''core''" and "SLASH \<notin> set packageName"
  shows "getDataDocumentationFile packageName
           = (if packageName = ascii ''core-data'' then ascii ''data-core.md''
              else ascii ''data-core-'' @ packageName @ ascii ''.md'')
         \<and> getDataDocumentationFilePackage
             (basename (getDataDocumentationFile packageName) (ascii ''.md''))
           = packageName"
proof (cases "packageName = ascii ''core-data''")
  case True
  have "SLASH \<notin> set (ascii ''data-core'')" by (simp add: ascii_def SLASH_def)
  then have "basename (ascii ''data-core'' @ ascii ''.md'') (ascii ''.md'') = ascii ''data-core''"
    by (rule basename_md) (simp add: ascii_def)
  moreover have "ascii ''data-core'' @ ascii ''.md'' = ascii ''data-core.md''"
    by (simp add: ascii_def)
  ultimately show ?thesis
    using True by (simp add: getDataDocumentationFile_core_data getDataDocumentationFilePackage_core)
next
  case False
  have "SLASH \<notin> set (ascii ''data-core-'' @ packageName)"
    using assms(2) by (simp add: ascii_def SLASH_def)
  then have "basename ((ascii ''data-core-'' @ packageName) @ ascii ''.md'') (ascii ''.md'')
      = ascii ''data-core-'' @ packageName"
    by (rule basename_md) (simp add: ascii_def)
  then show ?thesis
    using False assms(1)
    by (simp add: getDataDocumentationFile_other getDataDocumentationFilePackage_other)
qed

theorem package_and_doc_file_inverse_witness:
  "getDataDocumentationFile (ascii ''foo'') = ascii ''data-core-foo.md''
   \<and> getDataDocumentationFilePackage (basename (ascii ''data-core-foo.md'') (ascii ''.md''))
       = ascii ''foo''
   \<and> getDataDocumentationFile (ascii ''core-data'') = ascii ''data-core.md''
   \<and> getDataDocumentationFilePackage (basename (ascii ''data-core.md'') (ascii ''.md''))
       = ascii ''core-data''"
proof -
  have f1: "ascii ''foo'' \<noteq> ascii ''core''" by code_simp
  have f2: "SLASH \<notin> set (ascii ''foo'')" by code_simp
  have c1: "ascii ''core-data'' \<noteq> ascii ''core''" by code_simp
  have c2: "SLASH \<notin> set (ascii ''core-data'')" by code_simp
  have e1: "ascii ''foo'' \<noteq> ascii ''core-data''" by code_simp
  have e2: "ascii ''data-core-'' @ ascii ''foo'' @ ascii ''.md'' = ascii ''data-core-foo.md''"
    by (simp add: ascii_def)
  have foo: "getDataDocumentationFile (ascii ''foo'') = ascii ''data-core-foo.md''"
    using package_and_doc_file_inverse [OF f1 f2] e1 e2 by presburger
  have core: "getDataDocumentationFile (ascii ''core-data'') = ascii ''data-core.md''"
    using package_and_doc_file_inverse [OF c1 c2] by presburger
  from package_and_doc_file_inverse [OF f1 f2] package_and_doc_file_inverse [OF c1 c2]
  show ?thesis unfolding foo core by blast
qed






text \<open>
  C5. A marker that omits the path segment, \<open><!-- START TOKEN(name) -->\<close>, is extracted
  with the source path \<open>src/index.js\<close>. The name is not empty and holds no line
  terminator, no pipe and no closing \<open>) -->\<close>; the marker may stand anywhere in the
  content, after any text whose own matches end before it.
\<close>

theorem default_path_when_omitted:
  assumes "name \<noteq> []"
    and "\<forall>c\<in>set name. \<not> isLineTerminator c"
    and "PIPE \<notin> set name"
    and "\<not> sublist TOKEN_CLOSE name"
    and "matchesEndWithin pre (TOKEN_OPEN @ name @ TOKEN_CLOSE @ post)"
  shows "\<exists>before. collectTokens (pre @ TOKEN_OPEN @ name @ TOKEN_CLOSE @ post)
           = before @ (name, ascii ''src/index.js'') # collectTokens post"
  using bare_marker_tokens [OF assms] by (simp add: DEFAULT_PATH_def)

theorem default_path_when_omitted_witness:
  "ascii ''API'' \<noteq> []
   \<and> \<not> (\<exists>c\<in>set (ascii ''API''). isLineTerminator c)
   \<and> PIPE \<notin> set (ascii ''API'')
   \<and> \<not> sublist TOKEN_CLOSE (ascii ''API'')
   \<and> matchesEndWithin (ascii ''# Data\<newline><!-- START TOKEN(Actions|src/actions.js) -->\<newline>'')
       (TOKEN_OPEN @ ascii ''API'' @ TOKEN_CLOSE @ ascii ''\<newline>text'')
   \<and> (\<exists>before.
         collectTokens
           (ascii ''# Data\<newline><!-- START TOKEN(Actions|src/actions.js) -->\<newline>''
            @ TOKEN_OPEN @ ascii ''API'' @ TOKEN_CLOSE @ ascii ''\<newline>text'')
         = before @ (ascii ''API'', ascii ''src/index.js'') # collectTokens (ascii ''\<newline>text''))"
proof -
  have h1: "ascii ''API'' \<noteq> []" by (simp add: ascii_def)
  have h2: "\<forall>c\<in>set (ascii ''API''). \<not> isLineTerminator c" by code_simp
  have h3: "PIPE \<notin> set (ascii ''API'')" by code_simp
  have h4: "\<not> sublist TOKEN_CLOSE (ascii ''API'')" by code_simp
  have h5: "matchesEndWithin (ascii ''# Data\<newline><!-- START TOKEN(Actions|src/actions.js) -->\<newline>'')
       (TOKEN_OPEN @ ascii ''API'' @ TOKEN_CLOSE @ ascii ''\<newline>text'')" by code_simp
  from default_path_when_omitted [OF h1 h2 h3 h4 h5] h1 h2 h3 h4 h5 show ?thesis by blast
qed

text \<open>
  C6. A readable file whose content holds no marker, that is no match of the token
  pattern at any position, is dropped by the transform: nothing is pushed
  downstream, and the pipeline makes no call of the generator for it.
\<close>

theorem no_marker_no_call:
  assumes "fs file = Inr content"
    and "\<forall>s\<in>set (suffixes content). execAt s = None"
  shows "pushed (filterTokenTransform fs file) = None
         \<and> processFile fs execa E file st = (Inr (), st)"
proof -
  from assms(2) have "matchAll content = []" by (rule matchAll_none)
  then have "collectTokens content = []" by (simp add: collectTokens_def)
  with assms(1) show ?thesis
    by (simp add: processFile_def filterTokenTransform_def readContent_def)
qed

theorem no_marker_no_call_witness:
  "pushed (filterTokenTransform exampleFs (ascii ''/repo/packages/plain/README.md'')) = None
   \<and> processFile exampleFs alwaysDone exampleEnv (ascii ''/repo/packages/plain/README.md'')
        exampleStart
     = (Inr (), exampleStart)"
proof -
  have h1: "exampleFs (ascii ''/repo/packages/plain/README.md'')
      = Inr (ascii ''# Plain\<newline>No marker here.'')" by code_simp
  have h2: "\<forall>s\<in>set (suffixes (ascii ''# Plain\<newline>No marker here.'')). execAt s = None"
    by code_simp
  show ?thesis
    by (rule no_marker_no_call
        [of exampleFs "ascii ''/repo/packages/plain/README.md''"
            "ascii ''# Plain\<newline>No marker here.''", OF h1 h2])
qed

text \<open>
  C7. A file that cannot be read is skipped in silence: the transform pushes nothing,
  calls back without an error, and the pipeline makes no call for the file and is
  not rejected.
\<close>

theorem unreadable_file_skipped:
  assumes "fs file = Inl err"
  shows "filterTokenTransform fs file = \<lparr>pushed = None, callback_error = None\<rparr>
         \<and> processFile fs execa E file st = (Inr (), st)"
  using assms by (simp add: processFile_def filterTokenTransform_def readContent_def)

theorem unreadable_file_skipped_witness:
  "filterTokenTransform exampleFs (ascii ''/repo/packages/missing/README.md'')
     = \<lparr>pushed = None, callback_error = None\<rparr>
   \<and> processFile exampleFs alwaysDone exampleEnv (ascii ''/repo/packages/missing/README.md'')
        exampleStart
     = (Inr (), exampleStart)"
proof -
  have h: "exampleFs (ascii ''/repo/packages/missing/README.md'') = Inl ENOENT" by code_simp
  show ?thesis
    by (rule unreadable_file_skipped
        [of exampleFs "ascii ''/repo/packages/missing/README.md''" ENOENT, OF h])
qed

text \<open>
  C8. When the call for a token is rejected, after the calls for the tokens before it
  were fulfilled, the handler is rejected with that error: the calls made are those
  for the tokens up to the failing one, each once, none for a token after it, and
  the world is as the failing call left it.
\<close>

theorem failure_ends_the_file:
  assumes "onData execa E (file, before) st = (Inr (), st1)"
    and "execa (docgenCall E file (relative E (ROOT_DIR E) file) tok) (world st1) = (Inl err, w)"
  shows "onData execa E (file, before @ tok # after) st
           = (Inl err,
              \<lparr>world = w,
               invoked = invoked st
                 @ map (docgenCall E file (relative E (ROOT_DIR E) file)) (before @ [tok])\<rparr>)"
proof -
  let ?output = "relative E (ROOT_DIR E) file"
  from assms(1) have b: "forTokens execa E file ?output before st = (Inr (), st1)"
    by (simp add: onData_def)
  obtain k where k: "k \<le> length before"
    "invoked (snd (forTokens execa E file ?output before st))
       = invoked st @ map (docgenCall E file ?output) (take k before)"
    "fst (forTokens execa E file ?output before st) = Inr () \<longrightarrow> k = length before"
    using forTokens_trace [of before execa E "file" ?output st] by blast
  with b have inv: "invoked st1 = invoked st @ map (docgenCall E file ?output) before"
    by simp
  have "forTokens execa E file ?output (before @ tok # after) st
      = forTokens execa E file ?output (tok # after) st1"
    by (simp add: forTokens_append b)
  also have "\<dots> = (Inl err, \<lparr>world = w, invoked = invoked st1 @ [docgenCall E file ?output tok]\<rparr>)"
    using assms(2) by (simp add: Let_def)
  finally show ?thesis by (simp add: onData_def inv)
qed

theorem failure_ends_the_file_witness:
  "onData (failsOn (ascii ''--use-token \"API\"'')) exampleEnv
      (exampleReadme,
       [(ascii ''Actions|../core-data/src/actions.js'', ascii ''../core-data/src/actions.js'')]
       @ (ascii ''API'', ascii ''src/index.js'')
       # [(ascii ''Selectors'', ascii ''src/selectors.js'')])
      exampleStart
   = (Inl (NonZeroExit 1),
      \<lparr>world = 1,
       invoked = invoked exampleStart
         @ map (docgenCall exampleEnv exampleReadme
                  (relative exampleEnv (ROOT_DIR exampleEnv) exampleReadme))
             ([(ascii ''Actions|../core-data/src/actions.js'', ascii ''../core-data/src/actions.js'')]
              @ [(ascii ''API'', ascii ''src/index.js'')])\<rparr>)"
proof -
  let ?before = "[(ascii ''Actions|../core-data/src/actions.js'', ascii ''../core-data/src/actions.js'')]"
  let ?st1 = "snd (onData (failsOn (ascii ''--use-token \"API\"'')) exampleEnv
      (exampleReadme, ?before) exampleStart)"
  have h1: "onData (failsOn (ascii ''--use-token \"API\"'')) exampleEnv
      (exampleReadme, ?before) exampleStart = (Inr (), ?st1)"
    by code_simp
  have w: "world ?st1 = 1" by code_simp
  have h2: "failsOn (ascii ''--use-token \"API\"'')
      (docgenCall exampleEnv exampleReadme
         (relative exampleEnv (ROOT_DIR exampleEnv) exampleReadme)
         (ascii ''API'', ascii ''src/index.js''))
      (world ?st1) = (Inl (NonZeroExit 1), 1)"
    unfolding w by code_simp
  show ?thesis by (rule failure_ends_the_file [OF h1 h2])
qed

text \<open>
  C9. A marker with a path segment, \<open><!-- START TOKEN(name|path) -->\<close>, is extracted
  with the whole \<open>name|path\<close> as its identifier, pipe and path included, and that is
  what the generator gets after \<open>--use-token\<close>; the identifier is the bare name only
  for the marker without the path segment. Name and path are not empty and hold no
  line terminator and no closing \<open>) -->\<close>. The source path extracted is what follows
  the first pipe, which is \<open>path\<close> when the name holds no pipe after its first
  character.
\<close>

theorem identifier_includes_path:
  assumes "name \<noteq> []" and "path \<noteq> []"
    and "\<forall>c\<in>set (name @ PIPE # path). \<not> isLineTerminator c"
    and "\<not> sublist TOKEN_CLOSE (name @ PIPE # path)"
    and "matchesEndWithin pre (TOKEN_OPEN @ name @ PIPE # path @ TOKEN_CLOSE @ post)"
  shows "(\<exists>before p.
            collectTokens (pre @ TOKEN_OPEN @ name @ PIPE # path @ TOKEN_CLOSE @ post)
              = before @ (name @ PIPE # path, p) # collectTokens post
            \<and> (PIPE \<notin> set (tl name) \<longrightarrow> p = path)
            \<and> arguments (docgenCall E file output (name @ PIPE # path, p)) ! 3
                = ascii ''--use-token \"'' @ name @ PIPE # path @ ascii ''\"'')
         \<and> (PIPE \<notin> set name
              \<longrightarrow> matchesEndWithin pre' (TOKEN_OPEN @ name @ TOKEN_CLOSE @ post')
              \<longrightarrow> (\<exists>before.
                     collectTokens (pre' @ TOKEN_OPEN @ name @ TOKEN_CLOSE @ post')
                       = before @ (name, DEFAULT_PATH) # collectTokens post'))"
proof (intro conjI impI)
  obtain before p where p:
    "collectTokens (pre @ TOKEN_OPEN @ name @ PIPE # path @ TOKEN_CLOSE @ post)
       = before @ (name @ PIPE # path, p) # collectTokens post"
    "PIPE \<notin> set (tl name) \<longrightarrow> p = path"
    using piped_marker_tokens [OF assms] by blast
  have "arguments (docgenCall E file output (name @ PIPE # path, p)) ! 3
      = ascii ''--use-token \"'' @ name @ PIPE # path @ ascii ''\"''"
    by (simp add: docgenCall_def)
  with p show "\<exists>before p.
      collectTokens (pre @ TOKEN_OPEN @ name @ PIPE # path @ TOKEN_CLOSE @ post)
        = before @ (name @ PIPE # path, p) # collectTokens post
      \<and> (PIPE \<notin> set (tl name) \<longrightarrow> p = path)
      \<and> arguments (docgenCall E file output (name @ PIPE # path, p)) ! 3
          = ascii ''--use-token \"'' @ name @ PIPE # path @ ascii ''\"''"
    by blast
next
  assume bare: "PIPE \<notin> set name"
    "matchesEndWithin pre' (TOKEN_OPEN @ name @ TOKEN_CLOSE @ post')"
  have lt: "\<forall>c\<in>set name. \<not> isLineTerminator c" using assms(3) by simp
  have "sublist name (name @ PIPE # path)" by (rule sublist_append_rightI)
  with assms(4) have ns: "\<not> sublist TOKEN_CLOSE name"
    using sublist_order.order.trans by blast
  show "\<exists>before. collectTokens (pre' @ TOKEN_OPEN @ name @ TOKEN_CLOSE @ post')
      = before @ (name, DEFAULT_PATH) # collectTokens post'"
    using assms(1) lt bare(1) ns bare(2) by (rule bare_marker_tokens)
qed

theorem identifier_includes_path_witness:
  "(\<exists>before p.
      collectTokens
        (ascii ''# Data\<newline>'' @ TOKEN_OPEN @ ascii ''Actions'' @ PIPE # ascii ''../core-data/src/actions.js''
         @ TOKEN_CLOSE @ ascii ''\<newline>text'')
        = before @ (ascii ''Actions|../core-data/src/actions.js'', p) # collectTokens (ascii ''\<newline>text'')
      \<and> p = ascii ''../core-data/src/actions.js''
      \<and> arguments
           (docgenCall \<lparr>script_dirname = ascii ''/repo/bin/api-docs'', cwd = ascii ''/repo''\<rparr>
              (ascii ''/repo/packages/data/README.md'') (ascii ''packages/data/README.md'')
              (ascii ''Actions|../core-data/src/actions.js'', p)) ! 3
          = ascii ''--use-token \"Actions|../core-data/src/actions.js\"'')
   \<and> (\<exists>before.
         collectTokens (ascii ''# Data\<newline>'' @ TOKEN_OPEN @ ascii ''Actions'' @ TOKEN_CLOSE @ [])
           = before @ (ascii ''Actions'', DEFAULT_PATH) # collectTokens [])"
proof -
  let ?name = "ascii ''Actions''" and ?path = "ascii ''../core-data/src/actions.js''"
  have h1: "?name \<noteq> []" by (simp add: ascii_def)
  have h2: "?path \<noteq> []" by (simp add: ascii_def)
  have h3: "\<forall>c\<in>set (?name @ PIPE # ?path). \<not> isLineTerminator c" by code_simp
  have h4: "\<not> sublist TOKEN_CLOSE (?name @ PIPE # ?path)" by code_simp
  have h5: "matchesEndWithin (ascii ''# Data\<newline>'')
      (TOKEN_OPEN @ ?name @ PIPE # ?path @ TOKEN_CLOSE @ ascii ''\<newline>text'')" by code_simp
  have h6: "PIPE \<notin> set (tl ?name)" by code_simp
  have h7: "PIPE \<notin> set ?name" by code_simp
  have h8: "matchesEndWithin (ascii ''# Data\<newline>'') (TOKEN_OPEN @ ?name @ TOKEN_CLOSE @ [])"
    by code_simp
  have e: "?name @ PIPE # ?path = ascii ''Actions|../core-data/src/actions.js''"
    by (simp add: ascii_def PIPE_def)
  from identifier_includes_path [OF h1 h2 h3 h4 h5,
      of "\<lparr>script_dirname = ascii ''/repo/bin/api-docs'', cwd = ascii ''/repo''\<rparr>"
         "ascii ''/repo/packages/data/README.md''" "ascii ''packages/data/README.md''"
         "ascii ''# Data\<newline>''" "[]"]
    h6 h7 h8 e
  show ?thesis by (auto simp: ascii_def)
qed

text \<open>
  C10. A readable file whose content is the empty string is treated exactly as a file
  that cannot be read: the transform has the same result for both, pushes nothing,
  and the pipeline makes no call.
\<close>

theorem empty_file_like_unreadable:
  assumes "fs file = Inr []" and "fs' file = Inl err"
  shows "filterTokenTransform fs file = filterTokenTransform fs' file
         \<and> pushed (filterTokenTransform fs file) = None
         \<and> processFile fs execa E file st = processFile fs' execa E file st
         \<and> processFile fs execa E file st = (Inr (), st)"
  using assms by (simp add: processFile_def filterTokenTransform_def readContent_def)

theorem empty_file_like_unreadable_witness:
  "filterTokenTransform exampleFs (ascii ''/repo/packages/empty/README.md'')
     = filterTokenTransform (\<lambda>file. Inl EACCES) (ascii ''/repo/packages/empty/README.md'')
   \<and> pushed (filterTokenTransform exampleFs (ascii ''/repo/packages/empty/README.md'')) = None
   \<and> processFile exampleFs alwaysDone exampleEnv (ascii ''/repo/packages/empty/README.md'')
        exampleStart
     = processFile (\<lambda>file. Inl EACCES) alwaysDone exampleEnv
        (ascii ''/repo/packages/empty/README.md'') exampleStart
   \<and> processFile exampleFs alwaysDone exampleEnv (ascii ''/repo/packages/empty/README.md'')
        exampleStart
     = (Inr (), exampleStart)"
proof -
  have h1: "exampleFs (ascii ''/repo/packages/empty/README.md'') = Inr []" by code_simp
  have h2: "(\<lambda>file. Inl EACCES :: read_error + jsstring) (ascii ''/repo/packages/empty/README.md'')
      = Inl EACCES" by simp
  show ?thesis
    by (rule empty_file_like_unreadable
        [of exampleFs "ascii ''/repo/packages/empty/README.md''" "\<lambda>file. Inl EACCES" EACCES,
         OF h1 h2])
qed

end
